theory Spec2Isabelle
  imports Main "HOL-Library.AList" "HOL-Library.Word" "HOL-Library.List_Lexorder"
    "HOL-Library.Multiset"
begin

section \<open>The Graph class of js/script.js\<close>

text \<open>
  The class keeps one field, \<^verbatim>\<open>adjacencyList\<close>, a JavaScript \<^verbatim>\<open>Map\<close> from a vertex
  identifier to the array of its neighbours. A \<^verbatim>\<open>Map\<close> iterates in insertion order and
  holds every key once, so it is an association list whose keys are distinct
  (\<open>wf_graph\<close>); \<^verbatim>\<open>has\<close> and \<^verbatim>\<open>get\<close> are \<open>map_of\<close>, \<^verbatim>\<open>set\<close> is \<open>AList.update\<close>, which
  keeps the place of a key that is present and puts a new key last.
  Keys are compared by SameValueZero, which is equality on the identifiers modelled here.
\<close>

record 'v Graph =
  adjacencyList :: "('v \<times> 'v list) list"

definition constructor :: "'v Graph" where
  "constructor = \<lparr>adjacencyList = []\<rparr>"

definition wf_graph :: "'v Graph \<Rightarrow> bool" where
  "wf_graph g = distinct (map fst (adjacencyList g))"

text \<open>\<^verbatim>\<open>this.adjacencyList.has(vertex)\<close> and \<^verbatim>\<open>this.adjacencyList.get(vertex)\<close>
  (\<open>None\<close> is \<^verbatim>\<open>undefined\<close>).\<close>

definition has :: "'v Graph \<Rightarrow> 'v \<Rightarrow> bool" where
  "has g vertex = (map_of (adjacencyList g) vertex \<noteq> None)"

definition get :: "'v Graph \<Rightarrow> 'v \<Rightarrow> 'v list option" where
  "get g vertex = map_of (adjacencyList g) vertex"

text \<open>A method call on \<^verbatim>\<open>undefined\<close> throws a TypeError.\<close>

datatype error = TypeError

subsection \<open>addVertex and addEdge\<close>

definition addVertex :: "'v \<Rightarrow> 'v Graph \<Rightarrow> 'v Graph" where
  "addVertex vertex g =
     (if \<not> has g vertex
      then g\<lparr>adjacencyList := AList.update vertex [] (adjacencyList g)\<rparr>
      else g)"

text \<open>\<^verbatim>\<open>this.adjacencyList.get(v).push(w)\<close>: the array stored under \<open>v\<close> grows by \<open>w\<close>
  at its end; every array of the map was created by its own \<^verbatim>\<open>[]\<close> in \<open>addVertex\<close>, so
  no other entry changes.\<close>

definition push_neighbor :: "'v \<Rightarrow> 'v \<Rightarrow> 'v Graph \<Rightarrow> error + 'v Graph" where
  "push_neighbor v w g =
     (case get g v of
        None \<Rightarrow> Inl TypeError
      | Some neighbors \<Rightarrow>
          Inr (g\<lparr>adjacencyList := AList.update v (neighbors @ [w]) (adjacencyList g)\<rparr>))"

definition addEdge :: "'v \<Rightarrow> 'v \<Rightarrow> bool \<Rightarrow> 'v Graph \<Rightarrow> error + 'v Graph" where
  "addEdge vertex1 vertex2 directed g =
     (case push_neighbor vertex1 vertex2 (addVertex vertex2 (addVertex vertex1 g)) of
        Inl e \<Rightarrow> Inl e
      | Inr g' \<Rightarrow> if \<not> directed then push_neighbor vertex2 vertex1 g' else Inr g')"

text \<open>\<^verbatim>\<open>this.adjacencyList.get(vertex) || []\<close>, the neighbour lookup of both traversals.\<close>

definition neighbors_of :: "'v Graph \<Rightarrow> 'v \<Rightarrow> 'v list" where
  "neighbors_of g vertex = (case get g vertex of None \<Rightarrow> [] | Some ns \<Rightarrow> ns)"

subsection \<open>bfs\<close>

text \<open>
  The \<^verbatim>\<open>for\<close> loop of \<open>bfs\<close> over the neighbours: \<^verbatim>\<open>visited\<close> does not change while it
  runs, and each neighbour that is not visited is pushed on the queue.
\<close>

fun bfs_for :: "'v set \<Rightarrow> 'v list \<Rightarrow> 'v list \<Rightarrow> 'v list" where
  "bfs_for visited [] queue = queue"
| "bfs_for visited (neighbor # rest) queue =
     bfs_for visited rest (if neighbor \<notin> visited then queue @ [neighbor] else queue)"

lemma bfs_for_filter: "bfs_for visited ns queue = queue @ filter (\<lambda>n. n \<notin> visited) ns"
  by (induction ns arbitrary: queue) auto

text \<open>Every identifier that stands in some neighbour array: the measure of the
  traversals' termination counts the ones not visited yet.\<close>

definition mentioned :: "'v Graph \<Rightarrow> 'v set" where
  "mentioned g = (\<Union>(k, ns) \<in> set (adjacencyList g). set ns)"

lemma neighbors_of_mentioned: "set (neighbors_of g v) \<subseteq> mentioned g"
proof (cases "get g v")
  case None
  then show ?thesis by (simp add: neighbors_of_def)
next
  case (Some ns)
  then have "(v, ns) \<in> set (adjacencyList g)"
    by (simp add: get_def map_of_SomeD)
  then have "set ns \<subseteq> mentioned g"
    by (auto simp: mentioned_def)
  with Some show ?thesis by (simp add: neighbors_of_def)
qed

lemma finite_mentioned: "finite (mentioned g)"
  by (auto simp: mentioned_def)

lemma bfs_measure_visit:
  assumes "vertex \<notin> visited"
  shows "card ((mentioned g \<union> set (bfs_for (insert vertex visited) (neighbors_of g vertex) queue))
               - insert vertex visited)
         < card ((mentioned g \<union> set (vertex # queue)) - visited)"
proof (rule psubset_card_mono)
  show "finite ((mentioned g \<union> set (vertex # queue)) - visited)"
    by (simp add: finite_mentioned)
  have "vertex \<in> (mentioned g \<union> set (vertex # queue)) - visited"
    using assms by simp
  moreover have "(mentioned g \<union> set (bfs_for (insert vertex visited) (neighbors_of g vertex) queue))
        - insert vertex visited \<subseteq> (mentioned g \<union> set (vertex # queue)) - visited"
    using neighbors_of_mentioned [of g vertex] by (auto simp: bfs_for_filter)
  ultimately show "(mentioned g \<union> set (bfs_for (insert vertex visited) (neighbors_of g vertex) queue))
        - insert vertex visited \<subset> (mentioned g \<union> set (vertex # queue)) - visited"
    by blast
qed

lemma bfs_measure_skip:
  "card ((mentioned g \<union> set queue) - visited) \<le> card ((mentioned g \<union> set (vertex # queue)) - visited)"
  by (rule card_mono) (auto simp: finite_mentioned)

text \<open>
  The \<^verbatim>\<open>while (queue.length > 0)\<close> loop. Its state is what the body reads and writes:
  the graph \<^verbatim>\<open>this\<close>, \<^verbatim>\<open>visited\<close>, \<^verbatim>\<open>queue\<close> and \<^verbatim>\<open>result\<close>; the queue's head is taken by
  \<^verbatim>\<open>shift\<close>. The loop returns the graph as it is when the loop ends, with \<^verbatim>\<open>result\<close>.
\<close>

function bfs_while :: "'v Graph \<Rightarrow> 'v set \<Rightarrow> 'v list \<Rightarrow> 'v list \<Rightarrow> 'v Graph \<times> 'v list" where
  "bfs_while g visited [] result = (g, result)"
| "bfs_while g visited (vertex # queue) result =
     (if vertex \<notin> visited
      then bfs_while g (insert vertex visited)
             (bfs_for (insert vertex visited) (neighbors_of g vertex) queue)
             (result @ [vertex])
      else bfs_while g visited queue result)"
  by pat_completeness auto

termination
proof (relation "measures [\<lambda>(g, visited, queue, result). card ((mentioned g \<union> set queue) - visited),
                           \<lambda>(g, visited, queue, result). length queue]", goal_cases)
  case 1
  show ?case by simp
next
  case (2 g visited vertex queue result)
  then show ?case using bfs_measure_visit [of vertex visited g queue] by simp
next
  case (3 g visited vertex queue result)
  then show ?case using bfs_measure_skip [of g queue visited vertex] by auto
qed

text \<open>A call \<^verbatim>\<open>g.bfs(start)\<close>: the graph after the call and the array returned.\<close>

definition bfs_call :: "'v Graph \<Rightarrow> 'v \<Rightarrow> 'v Graph \<times> 'v list" where
  "bfs_call g start = bfs_while g {} [start] []"

definition bfs :: "'v Graph \<Rightarrow> 'v \<Rightarrow> 'v list" where
  "bfs g start = snd (bfs_call g start)"

subsection \<open>dfs\<close>

text \<open>
  The closure \<^verbatim>\<open>dfsHelper\<close> reads the graph \<^verbatim>\<open>this\<close> and writes \<^verbatim>\<open>visited\<close> and \<^verbatim>\<open>result\<close>,
  which its recursive calls share: the three are the state it takes and returns.
  \<open>dfs_for\<close> is its \<^verbatim>\<open>for\<close> loop over the neighbours, which goes on in the state the
  recursive call left. The model has no bound on the depth of the recursion.
\<close>

type_synonym 'v dfs_state = "'v Graph \<times> 'v set \<times> 'v list"

function dfsHelper :: "'v \<Rightarrow> 'v dfs_state \<Rightarrow> 'v dfs_state"
  and dfs_for :: "'v list \<Rightarrow> 'v dfs_state \<Rightarrow> 'v dfs_state" where
  "dfsHelper vertex (g, visited, result) =
     dfs_for (neighbors_of g vertex) (g, insert vertex visited, result @ [vertex])"
| "dfs_for [] st = st"
| "dfs_for (neighbor # rest) (g, visited, result) =
     (if neighbor \<notin> visited
      then dfs_for rest (dfsHelper neighbor (g, visited, result))
      else dfs_for rest (g, visited, result))"
  by pat_completeness auto

text \<open>Termination: a recursive call leaves the graph as it is and forgets no visited
  vertex, so the loop that goes on after it has no more unvisited vertices than before.\<close>

lemma dfs_dom_frame:
  "dfsHelper_dfs_for_dom (Inl (vertex, st)) \<Longrightarrow>
     fst (dfsHelper vertex st) = fst st \<and> fst (snd st) \<subseteq> fst (snd (dfsHelper vertex st))"
  "dfsHelper_dfs_for_dom (Inr (ns, st)) \<Longrightarrow>
     fst (dfs_for ns st) = fst st \<and> fst (snd st) \<subseteq> fst (snd (dfs_for ns st))"
proof (induction vertex st and ns st rule: dfsHelper_dfs_for.pinduct)
  case (1 vertex g visited result)
  then show ?case by (auto simp: dfsHelper.psimps)
next
  case (2 st)
  then show ?case by (simp add: dfs_for.psimps)
next
  case (3 neighbor rest g visited result)
  show ?case
  proof (cases "neighbor \<in> visited")
    case True
    with 3 show ?thesis by (simp add: dfs_for.psimps)
  next
    case False
    obtain g' visited' result' where
      r: "dfsHelper neighbor (g, visited, result) = (g', visited', result')"
      by (cases "dfsHelper neighbor (g, visited, result)")
    from "3.IH"(1) [OF False] r have 1: "g' = g" "visited \<subseteq> visited'" by auto
    from "3.IH"(2) [OF False] r have 2: "fst (dfs_for rest (g', visited', result')) = g'"
      "visited' \<subseteq> fst (snd (dfs_for rest (g', visited', result')))" by auto
    from "3.hyps" False r 1 2 show ?thesis by (auto simp: dfs_for.psimps)
  qed
qed

definition dfs_measure :: "'v \<times> 'v dfs_state + 'v list \<times> 'v dfs_state \<Rightarrow> nat" where
  "dfs_measure x =
     (case x of
        Inl (vertex, g, visited, result) \<Rightarrow> 2 * card (mentioned g - insert vertex visited) + 1
      | Inr (ns, g, visited, result) \<Rightarrow> 2 * card ((mentioned g \<union> set ns) - visited))"

definition dfs_pending :: "'v \<times> 'v dfs_state + 'v list \<times> 'v dfs_state \<Rightarrow> nat" where
  "dfs_pending x = (case x of Inl _ \<Rightarrow> 0 | Inr (ns, _) \<Rightarrow> length ns)"

lemma dfs_measure_enter:
  "dfs_measure (Inr (neighbors_of g vertex, g, insert vertex visited, result'))
   < dfs_measure (Inl (vertex, g, visited, result))"
proof -
  have "mentioned g \<union> set (neighbors_of g vertex) = mentioned g"
    using neighbors_of_mentioned [of g vertex] by auto
  then show ?thesis by (simp add: dfs_measure_def)
qed

lemma dfs_measure_recurse:
  assumes "neighbor \<notin> visited"
  shows "dfs_measure (Inl (neighbor, g, visited, result))
         < dfs_measure (Inr (neighbor # rest, g, visited, result))"
proof -
  have "mentioned g - insert neighbor visited \<subset> (mentioned g \<union> set (neighbor # rest)) - visited"
    using assms by auto
  then have "card (mentioned g - insert neighbor visited)
      < card ((mentioned g \<union> set (neighbor # rest)) - visited)"
    by (rule psubset_card_mono [rotated]) (simp add: finite_mentioned)
  then show ?thesis by (simp add: dfs_measure_def)
qed

lemma dfs_measure_continue:
  assumes "visited \<subseteq> visited'"
  shows "dfs_measure (Inr (rest, g, visited', result'))
         \<le> dfs_measure (Inr (neighbor # rest, g, visited, result))"
proof -
  have "card ((mentioned g \<union> set rest) - visited')
      \<le> card ((mentioned g \<union> set (neighbor # rest)) - visited)"
    using assms by (intro card_mono) (auto simp: finite_mentioned)
  then show ?thesis by (simp add: dfs_measure_def)
qed

termination dfsHelper
proof (relation "measures [dfs_measure, dfs_pending]", goal_cases)
  case 1
  show ?case by simp
next
  case (2 vertex g visited result)
  show ?case using dfs_measure_enter [of g vertex visited] by simp
next
  case (3 neighbor rest g visited result)
  then show ?case using dfs_measure_recurse [of neighbor visited g result rest] by simp
next
  case (4 neighbor rest g visited result)
  obtain g' visited' result' where
    r: "dfsHelper neighbor (g, visited, result) = (g', visited', result')"
    by (cases "dfsHelper neighbor (g, visited, result)")
  from dfs_dom_frame(1) [OF 4(2)] r have "g' = g" "visited \<subseteq> visited'" by auto
  with r show ?case
    using dfs_measure_continue [of visited visited' rest g result' neighbor result]
    by (auto simp: dfs_pending_def)
next
  case (5 neighbor rest g visited result)
  show ?case
    using dfs_measure_continue [of visited visited rest g result neighbor result]
    by (auto simp: dfs_pending_def)
qed

text \<open>A call \<^verbatim>\<open>g.dfs(start)\<close>: the graph after the call and the array returned.\<close>

definition dfs_call :: "'v Graph \<Rightarrow> 'v \<Rightarrow> 'v Graph \<times> 'v list" where
  "dfs_call g start = (case dfsHelper start (g, {}, []) of (g', visited, result) \<Rightarrow> (g', result))"

definition dfs :: "'v Graph \<Rightarrow> 'v \<Rightarrow> 'v list" where
  "dfs g start = snd (dfs_call g start)"

subsection \<open>Identifiers and their strings\<close>

text \<open>
  The two exports turn identifiers into strings. Their identifiers are the ones the
  specification names, strings and numbers. A JavaScript string is a sequence of 16-bit
  code units, and strings compare code unit by code unit, a proper prefix first: the
  order of \<open>16 word list\<close>. \<open>code_units\<close> writes an ASCII literal as code units.

  The numbers are a type parameter \<open>'n\<close>, with equality as SameValueZero, and how a number
  prints (\<^verbatim>\<open>Number::toString\<close>, a built-in of the language) is the parameter
  \<open>numberToString\<close> of the exports: what is proved of them holds whatever string each
  number has, exponent notation and shortest round-trip digits included.
\<close>

type_synonym jsstring = "16 word list"

datatype 'n ident = Str jsstring | Num 'n

definition code_units :: "string \<Rightarrow> jsstring" where
  "code_units s = map (\<lambda>c. of_nat (of_char c)) s"

text \<open>\<^verbatim>\<open>ToString\<close>: a string is its own string.\<close>

fun toString :: "('n \<Rightarrow> jsstring) \<Rightarrow> 'n ident \<Rightarrow> jsstring" where
  "toString numberToString (Str s) = s"
| "toString numberToString (Num n) = numberToString n"

text \<open>
  \<^verbatim>\<open>Array.prototype.sort()\<close> without a comparison function: the elements are ordered by
  their strings (\<^verbatim>\<open>ToString\<close>), and elements with equal strings keep their order (the sort
  is stable).
\<close>

definition sort_default :: "('n \<Rightarrow> jsstring) \<Rightarrow> 'n ident list \<Rightarrow> 'n ident list" where
  "sort_default numberToString xs = sort_key (toString numberToString) xs"

subsection \<open>getAdjacencyList\<close>

text \<open>\<^verbatim>\<open>neighbors.join(separator)\<close>: the strings of the elements with the separator
  between them.\<close>

fun join :: "('n \<Rightarrow> jsstring) \<Rightarrow> jsstring \<Rightarrow> 'n ident list \<Rightarrow> jsstring" where
  "join numberToString separator [] = []"
| "join numberToString separator [x] = toString numberToString x"
| "join numberToString separator (x # y # ys) =
     toString numberToString x @ separator @ join numberToString separator (y # ys)"

text \<open>The \<^verbatim>\<open>for ... of\<close> loop over the entries of the map, in the map's order; its state
  is the graph \<^verbatim>\<open>this\<close> and \<^verbatim>\<open>representation\<close>. Code unit 10 is the line feed.\<close>

fun getAdjacencyList_for ::
  "('n \<Rightarrow> jsstring) \<Rightarrow> ('n ident \<times> 'n ident list) list \<Rightarrow>
     'n ident Graph \<times> jsstring \<Rightarrow> 'n ident Graph \<times> jsstring" where
  "getAdjacencyList_for numberToString [] st = st"
| "getAdjacencyList_for numberToString ((vertex, neighbors) # rest) (g, representation) =
     getAdjacencyList_for numberToString rest
       (g, representation @ toString numberToString vertex @ code_units '': ['' @
             join numberToString (code_units '', '') neighbors @ code_units '']'' @ [10])"

definition getAdjacencyList_call ::
  "('n \<Rightarrow> jsstring) \<Rightarrow> 'n ident Graph \<Rightarrow> 'n ident Graph \<times> jsstring" where
  "getAdjacencyList_call numberToString g =
     getAdjacencyList_for numberToString (adjacencyList g) (g, [])"

definition getAdjacencyList :: "('n \<Rightarrow> jsstring) \<Rightarrow> 'n ident Graph \<Rightarrow> jsstring" where
  "getAdjacencyList numberToString g = snd (getAdjacencyList_call numberToString g)"

subsection \<open>getAdjacencyMatrix\<close>

text \<open>
  The two \<^verbatim>\<open>for\<close> loops, the inner one first. \<^verbatim>\<open>includes\<close> is membership, and a \<^verbatim>\<open>get\<close> that
  gave \<^verbatim>\<open>undefined\<close> would make \<^verbatim>\<open>includes\<close> throw. Every row of the matrix is an array of
  its own (\<^verbatim>\<open>map(() => Array(size).fill(0))\<close>), so an assignment changes one cell; the
  loops keep \<open>i\<close> and \<open>j\<close> below \<^verbatim>\<open>size\<close>, inside the matrix (\<open>matrix_for_i_result\<close>).
\<close>

function matrix_for_j ::
  "'v Graph \<Rightarrow> 'v list \<Rightarrow> nat \<Rightarrow> nat \<Rightarrow> nat list list \<Rightarrow> error + nat list list" where
  "matrix_for_j g vertices i j matrix =
     (if j < length vertices
      then (case get g (vertices ! i) of
              None \<Rightarrow> Inl TypeError
            | Some neighbors \<Rightarrow>
                matrix_for_j g vertices i (j + 1)
                  (if vertices ! j \<in> set neighbors
                   then matrix[i := (matrix ! i)[j := 1]]
                   else matrix))
      else Inr matrix)"
  by pat_completeness auto
termination
  by (relation "measure (\<lambda>(g, vertices, i, j, matrix). length vertices - j)") auto

declare matrix_for_j.simps [simp del]

function matrix_for_i ::
  "'v Graph \<Rightarrow> 'v list \<Rightarrow> nat \<Rightarrow> nat list list \<Rightarrow> error + nat list list" where
  "matrix_for_i g vertices i matrix =
     (if i < length vertices
      then (case matrix_for_j g vertices i 0 matrix of
              Inl e \<Rightarrow> Inl e
            | Inr matrix' \<Rightarrow> matrix_for_i g vertices (i + 1) matrix')
      else Inr matrix)"
  by pat_completeness auto
termination
  by (relation "measure (\<lambda>(g, vertices, i, matrix). length vertices - i)") auto

declare matrix_for_i.simps [simp del]

definition getAdjacencyMatrix ::
  "('n \<Rightarrow> jsstring) \<Rightarrow> 'n ident Graph \<Rightarrow> error + nat list list \<times> 'n ident list" where
  "getAdjacencyMatrix numberToString g =
     (let vertices = sort_default numberToString (map fst (adjacencyList g));
          size = length vertices;
          matrix = replicate size (replicate size 0)
      in case matrix_for_i g vertices 0 matrix of
           Inl e \<Rightarrow> Inl e
         | Inr matrix' \<Rightarrow> Inr (matrix', vertices))"

section \<open>Reachability, distance and the orders of traversal\<close>

text \<open>An edge leads from a vertex to each member of its neighbour array; a vertex with
  no entry has no edge.\<close>

definition edge :: "'v Graph \<Rightarrow> ('v \<times> 'v) set" where
  "edge g = {(u, w). w \<in> set (neighbors_of g u)}"

definition reachable :: "'v Graph \<Rightarrow> 'v \<Rightarrow> 'v set" where
  "reachable g start = {v. (start, v) \<in> (edge g)\<^sup>*}"

definition distance :: "'v Graph \<Rightarrow> 'v \<Rightarrow> 'v \<Rightarrow> nat" where
  "distance g start v = (LEAST n. (start, v) \<in> edge g ^^ n)"

text \<open>The members of a list in the order of their first occurrence.\<close>

fun first_occurrences :: "'a list \<Rightarrow> 'a list" where
  "first_occurrences [] = []"
| "first_occurrences (x # xs) = x # first_occurrences (filter (\<lambda>y. y \<noteq> x) xs)"

text \<open>
  The pre-order sequence as the specification words it: \<open>preorder g V v xs\<close> says that
  visiting \<open>v\<close> when the vertices \<open>V\<close> are visited appends \<open>xs\<close>: \<open>v\<close> first, then for each
  neighbour in adjacency order nothing if it is visited by then, and else the whole
  sequence of visiting it.
\<close>

inductive preorder :: "'v Graph \<Rightarrow> 'v set \<Rightarrow> 'v \<Rightarrow> 'v list \<Rightarrow> bool"
  and preorder_each :: "'v Graph \<Rightarrow> 'v set \<Rightarrow> 'v list \<Rightarrow> 'v list \<Rightarrow> bool" where
  visit: "preorder_each g (insert v V) (neighbors_of g v) xs \<Longrightarrow> preorder g V v (v # xs)"
| finish: "preorder_each g V [] []"
| skip: "n \<in> V \<Longrightarrow> preorder_each g V ns xs \<Longrightarrow> preorder_each g V (n # ns) xs"
| descend: "n \<notin> V \<Longrightarrow> preorder g V n ys \<Longrightarrow> preorder_each g (V \<union> set ys) ns xs \<Longrightarrow>
     preorder_each g V (n # ns) (ys @ xs)"

inductive_cases preorderE: "preorder g V v xs"
inductive_cases preorder_each_NilE: "preorder_each g V [] xs"
inductive_cases preorder_each_ConsE: "preorder_each g V (n # ns) xs"

text \<open>The invariant of the \<open>bfs\<close> loop: the queue is the rest \<open>A\<close> of layer \<open>k\<close> followed by
  the part \<open>B\<close> of layer \<open>k + 1\<close> found so far.\<close>

definition bfs_inv :: "'v Graph \<Rightarrow> 'v \<Rightarrow> nat \<Rightarrow> 'v list \<Rightarrow> 'v list \<Rightarrow> 'v set \<Rightarrow> 'v list \<Rightarrow> bool" where
  "bfs_inv g s k A B visited result \<longleftrightarrow>
     visited = set result \<and> distinct result \<and> sorted (map (distance g s) result) \<and>
     set result \<union> set A \<union> set B \<subseteq> reachable g s \<and>
     (\<forall>v \<in> set result. distance g s v \<le> k) \<and>
     (\<forall>v \<in> reachable g s. distance g s v < k \<longrightarrow> v \<in> visited) \<and>
     (\<forall>v \<in> set A. distance g s v \<le> k) \<and>
     (\<forall>v \<in> set B. distance g s v \<le> Suc k) \<and>
     (\<forall>v \<in> reachable g s. distance g s v = k \<longrightarrow> v \<in> visited \<union> set A) \<and>
     (\<forall>u \<in> visited. set (neighbors_of g u) \<subseteq> visited \<union> set A \<union> set B) \<and>
     s \<in> visited \<union> set A \<union> set B"

text \<open>One line of the adjacency-list text: \<^verbatim>\<open><vertex>: [<neighbor1>, <neighbor2>, ...]\<close>
  and a line feed.\<close>

fun listing :: "('n \<Rightarrow> jsstring) \<Rightarrow> 'n ident list \<Rightarrow> jsstring" where
  "listing numberToString [] = []"
| "listing numberToString (n # rest) =
     toString numberToString n @
     concat (map (\<lambda>m. code_units '', '' @ toString numberToString m) rest)"

definition line :: "('n \<Rightarrow> jsstring) \<Rightarrow> 'n ident \<times> 'n ident list \<Rightarrow> jsstring" where
  "line numberToString entry =
     toString numberToString (fst entry) @ code_units '': ['' @
     listing numberToString (snd entry) @ code_units '']'' @ [10]"

text \<open>
  The comparison of identifiers as values, the reading of the specification's default
  ascending comparison under which a number and a string are incomparable: numbers
  compare by value, strings code unit by code unit.
\<close>

fun ident_le :: "('n :: ord) ident \<Rightarrow> 'n ident \<Rightarrow> bool" where
  "ident_le (Num a) (Num b) = (a \<le> b)"
| "ident_le (Str s) (Str t) = (s \<le> t)"
| "ident_le (Num a) (Str t) = False"
| "ident_le (Str s) (Num b) = False"

text \<open>A square matrix of size \<open>n\<close>.\<close>

definition shape :: "nat \<Rightarrow> nat list list \<Rightarrow> bool" where
  "shape n matrix \<longleftrightarrow> length matrix = n \<and> (\<forall>row \<in> set matrix. length row = n)"

section \<open>Example graphs\<close>

text \<open>Four vertices with entries and a fifth, \<open>e\<close>, that is only a neighbour.\<close>

definition diamond :: "string Graph" where
  "diamond = \<lparr>adjacencyList =
     [(''a'', [''b'', ''c'']), (''b'', [''a'', ''d'']), (''c'', [''a'', ''d'']),
      (''d'', [''b'', ''c'', ''e''])]\<rparr>"

text \<open>The path graph of the specification's examples, with a vertex \<open>e\<close> added alone.\<close>

definition path_graph :: "string Graph" where
  "path_graph = \<lparr>adjacencyList =
     [(''a'', [''b'']), (''b'', [''a'', ''c'']), (''c'', [''b'', ''d'']), (''d'', [''c'']),
      (''e'', [])]\<rparr>"

text \<open>
  The numbers of the examples are the integers from 0 to \<open>2\<^sup>5\<^sup>3 - 1\<close>. Each is a JavaScript
  number, and JavaScript prints each as its decimal digits.
\<close>

definition digit :: "nat \<Rightarrow> 16 word" where
  "digit d = of_nat (48 + d)"

fun digits :: "nat \<Rightarrow> jsstring" where
  "digits n = (if n < 10 then [digit n] else digits (n div 10) @ [digit (n mod 10)])"

declare digits.simps [simp del]

definition decimal :: "53 word \<Rightarrow> jsstring" where
  "decimal n = digits (unat n)"

text \<open>Numbers and a string as identifiers.\<close>

definition numbered :: "53 word ident Graph" where
  "numbered = \<lparr>adjacencyList =
     [(Num 9, [Num 10]), (Num 10, [Num 9, Num 1]), (Num 1, [Num 10]),
      (Str (code_units ''b''), [Num 1])]\<rparr>"

text \<open>Strings only as identifiers, the later one in the order added first.\<close>

definition lettered :: "53 word ident Graph" where
  "lettered = \<lparr>adjacencyList =
     [(Str (code_units ''b''), [Str (code_units ''a'')]),
      (Str (code_units ''a''), [Str (code_units ''b'')])]\<rparr>"

text \<open>The graph after \<^verbatim>\<open>addEdge(9, 10)\<close>.\<close>

definition nine_ten :: "53 word ident Graph" where
  "nine_ten = \<lparr>adjacencyList = [(Num 9, [Num 10]), (Num 10, [Num 9])]\<rparr>"

section \<open>Properties\<close>

subsection \<open>Reachability and distance\<close>

lemma reachable_start: "start \<in> reachable g start"
  by (simp add: reachable_def)

lemma reachable_step:
  "u \<in> reachable g start \<Longrightarrow> w \<in> set (neighbors_of g u) \<Longrightarrow> w \<in> reachable g start"
  by (auto simp: reachable_def edge_def intro: rtrancl_into_rtrancl)

lemma reachable_closed:
  assumes "start \<in> X" and "\<And>u w. u \<in> X \<Longrightarrow> w \<in> set (neighbors_of g u) \<Longrightarrow> w \<in> X"
  shows "reachable g start \<subseteq> X"
proof
  fix v assume "v \<in> reachable g start"
  then have "(start, v) \<in> (edge g)\<^sup>*" by (simp add: reachable_def)
  then show "v \<in> X"
    by (induction rule: rtrancl_induct) (use assms in \<open>auto simp: edge_def\<close>)
qed

lemma distance_start: "distance g start start = 0"
  by (simp add: distance_def)

lemma distance_path:
  assumes "v \<in> reachable g start"
  shows "(start, v) \<in> edge g ^^ distance g start v"
proof -
  from assms obtain n where "(start, v) \<in> edge g ^^ n"
    by (auto simp: reachable_def rtrancl_power)
  then show ?thesis unfolding distance_def by (rule LeastI)
qed

lemma distance_le: "(start, v) \<in> edge g ^^ n \<Longrightarrow> distance g start v \<le> n"
  unfolding distance_def by (rule Least_le)

lemma distance_step:
  assumes "u \<in> reachable g start" and "w \<in> set (neighbors_of g u)"
  shows "distance g start w \<le> Suc (distance g start u)"
proof -
  have "(start, u) \<in> edge g ^^ distance g start u" using assms(1) by (rule distance_path)
  moreover have "(u, w) \<in> edge g" using assms(2) by (simp add: edge_def)
  ultimately have "(start, w) \<in> edge g ^^ Suc (distance g start u)" by auto
  then show ?thesis by (rule distance_le)
qed

lemma distance_zero:
  assumes "v \<in> reachable g start" and "distance g start v = 0"
  shows "v = start"
  using distance_path [OF assms(1)] assms(2) by simp

lemma distance_pred:
  assumes "v \<in> reachable g start" and "distance g start v = Suc k"
  obtains u where "u \<in> reachable g start" and "distance g start u = k"
    and "v \<in> set (neighbors_of g u)"
proof -
  from distance_path [OF assms(1)] assms(2) have "(start, v) \<in> edge g ^^ Suc k" by simp
  then obtain u where su: "(start, u) \<in> edge g ^^ k" and uv: "(u, v) \<in> edge g" by auto
  from su have ur: "u \<in> reachable g start"
    by (auto simp: reachable_def rtrancl_power)
  from uv have nb: "v \<in> set (neighbors_of g u)" by (simp add: edge_def)
  have "distance g start u \<le> k" using su by (rule distance_le)
  moreover have "Suc k \<le> Suc (distance g start u)"
    using distance_step [OF ur nb] assms(2) by simp
  ultimately have du: "distance g start u = k" by simp
  show thesis by (rule that [OF ur du nb])
qed

lemma set_first_occurrences: "set (first_occurrences xs) = set xs"
  by (induction xs rule: first_occurrences.induct) auto

lemma distinct_first_occurrences: "distinct (first_occurrences xs)"
  by (induction xs rule: first_occurrences.induct) (auto simp: set_first_occurrences)

lemma first_occurrences_append:
  "first_occurrences (xs @ ys) =
     first_occurrences xs @ first_occurrences (filter (\<lambda>y. y \<notin> set xs) ys)"
proof (induction xs arbitrary: ys rule: first_occurrences.induct)
  case 1
  show ?case by simp
next
  case (2 x xs)
  have "filter (\<lambda>y. y \<notin> set (filter (\<lambda>y. y \<noteq> x) xs)) (filter (\<lambda>y. y \<noteq> x) ys)
        = filter (\<lambda>y. y \<notin> set (x # xs)) ys"
    by (auto simp: filter_filter intro: filter_cong)
  with 2 [of "filter (\<lambda>y. y \<noteq> x) ys"] show ?case by simp
qed


subsection \<open>bfs\<close>

lemma bfs_inv_init: "bfs_inv g s 0 [s] [] {} []"
  by (auto simp: bfs_inv_def reachable_start distance_start dest: distance_zero)

lemma bfs_inv_shift:
  assumes "bfs_inv g s k [] B visited result"
  shows "bfs_inv g s (Suc k) B [] visited result"
proof -
  have next_layer: "v \<in> visited \<union> set B"
    if "v \<in> reachable g s" and "distance g s v = Suc k" for v
  proof -
    from that obtain u where "u \<in> reachable g s" "distance g s u = k" "v \<in> set (neighbors_of g u)"
      by (rule distance_pred)
    with assms show ?thesis unfolding bfs_inv_def by auto
  qed
  have below: "v \<in> visited" if "v \<in> reachable g s" and "distance g s v < Suc k" for v
    using assms that unfolding bfs_inv_def by (cases "distance g s v = k") auto
  from assms have "\<forall>v \<in> set result. distance g s v \<le> Suc k"
    unfolding bfs_inv_def by (auto intro: le_SucI)
  with assms next_layer below show ?thesis
    unfolding bfs_inv_def by auto
qed

lemma bfs_inv_skip:
  assumes "bfs_inv g s k (v # A) B visited result" and "v \<in> visited"
  shows "bfs_inv g s k A B visited result"
  using assms unfolding bfs_inv_def by auto

lemma bfs_inv_visit:
  assumes inv: "bfs_inv g s k (v # A) B visited result" and nv: "v \<notin> visited"
  shows "bfs_inv g s k A (B @ filter (\<lambda>n. n \<notin> insert v visited) (neighbors_of g v))
           (insert v visited) (result @ [v])"
proof -
  from inv have vr: "v \<in> reachable g s" and vk: "distance g s v \<le> k"
    unfolding bfs_inv_def by auto
  from inv vr nv have "\<not> distance g s v < k" unfolding bfs_inv_def by auto
  with vk have dv: "distance g s v = k" by simp
  have nbr: "n \<in> reachable g s \<and> distance g s n \<le> Suc k" if "n \<in> set (neighbors_of g v)" for n
    using reachable_step [OF vr that] distance_step [OF vr that] dv by simp
  from inv dv have srt: "sorted (map (distance g s) (result @ [v]))"
    unfolding bfs_inv_def by (auto simp: sorted_append)
  from inv nv have dst: "distinct (result @ [v])" unfolding bfs_inv_def by auto
  from inv nbr vr dv nv srt dst show ?thesis
    unfolding bfs_inv_def by auto
qed

lemma bfs_inv_end:
  assumes "bfs_inv g s k [] [] visited result"
  shows "distinct result \<and> set result = reachable g s \<and> sorted (map (distance g s) result)"
proof -
  have "reachable g s \<subseteq> set result"
  proof (rule reachable_closed)
    show "s \<in> set result" using assms unfolding bfs_inv_def by auto
  next
    fix u w assume "u \<in> set result" "w \<in> set (neighbors_of g u)"
    with assms show "w \<in> set result" unfolding bfs_inv_def by auto
  qed
  with assms show ?thesis unfolding bfs_inv_def by auto
qed

lemma bfs_while_layered:
  assumes "bfs_inv g s k A B visited result" and "queue = A @ B"
  shows "distinct (snd (bfs_while g visited queue result)) \<and>
         set (snd (bfs_while g visited queue result)) = reachable g s \<and>
         sorted (map (distance g s) (snd (bfs_while g visited queue result)))"
  using assms
proof (induction g visited queue result arbitrary: k A B rule: bfs_while.induct)
  case (1 g visited result)
  then have "bfs_inv g s k [] [] visited result" by simp
  then show ?case by (simp add: bfs_inv_end)
next
  case (2 g visited vertex queue result)
  obtain k' A' B' where inv': "bfs_inv g s k' (vertex # A') B' visited result"
    and q: "queue = A' @ B'"
  proof (cases A)
    case Nil
    with 2 have "bfs_inv g s (Suc k) (vertex # queue) [] visited result"
      by (simp add: bfs_inv_shift)
    then show thesis by (rule that) simp
  next
    case (Cons a A'')
    with 2 have "bfs_inv g s k (vertex # A'') B visited result" "queue = A'' @ B" by auto
    then show thesis by (rule that)
  qed
  show ?case
  proof (cases "vertex \<in> visited")
    case True
    from inv' True have "bfs_inv g s k' A' B' visited result" by (rule bfs_inv_skip)
    from "2.IH"(2) [OF _ this q] True show ?thesis by simp
  next
    case False
    from inv' False
    have "bfs_inv g s k' A' (B' @ filter (\<lambda>n. n \<notin> insert vertex visited) (neighbors_of g vertex))
           (insert vertex visited) (result @ [vertex])" by (rule bfs_inv_visit)
    from "2.IH"(1) [OF False this] q False show ?thesis by (simp add: bfs_for_filter)
  qed
qed

lemma bfs_while_arrival:
  assumes "first_occurrences (s # concat (map (neighbors_of g) result))
           = result @ first_occurrences (filter (\<lambda>n. n \<notin> visited) queue)"
    and "visited = set result"
  shows "first_occurrences (s # concat (map (neighbors_of g) (snd (bfs_while g visited queue result))))
         = snd (bfs_while g visited queue result)"
  using assms
proof (induction g visited queue result rule: bfs_while.induct)
  case (1 g visited result)
  then show ?case by simp
next
  case (2 g visited vertex queue result)
  show ?case
  proof (cases "vertex \<in> visited")
    case True
    with 2 show ?thesis by simp
  next
    case False
    define X where "X = s # concat (map (neighbors_of g) result)"
    define V where "V = insert vertex visited"
    define F where "F = filter (\<lambda>n. n \<notin> V) queue"
    define N where "N = neighbors_of g vertex"
    have F: "filter (\<lambda>y. y \<noteq> vertex) (filter (\<lambda>n. n \<notin> visited) queue) = F"
      unfolding F_def V_def by (auto simp: filter_filter intro: filter_cong)
    from "2.prems"(1) False F
    have X: "first_occurrences X = result @ vertex # first_occurrences F"
      unfolding X_def by simp
    have "set X = set (first_occurrences X)" by (simp only: set_first_occurrences)
    also have "\<dots> = V \<union> set queue"
      unfolding X using "2.prems"(2) by (auto simp: set_first_occurrences F_def V_def)
    finally have setX: "set X = V \<union> set queue" .
    have G: "filter (\<lambda>y. y \<notin> set F) (filter (\<lambda>n. n \<notin> V) N) = filter (\<lambda>y. y \<notin> set X) N"
      unfolding setX F_def by (auto simp: filter_filter intro: filter_cong)
    have "first_occurrences (s # concat (map (neighbors_of g) (result @ [vertex])))
          = first_occurrences (X @ N)" by (simp add: X_def N_def)
    also have "\<dots> = first_occurrences X @ first_occurrences (filter (\<lambda>y. y \<notin> set X) N)"
      by (rule first_occurrences_append)
    also have "\<dots> = (result @ [vertex]) @ first_occurrences F @
         first_occurrences (filter (\<lambda>y. y \<notin> set F) (filter (\<lambda>n. n \<notin> V) N))"
      by (simp only: X G append_assoc append_Cons append_Nil)
    also have "\<dots> = (result @ [vertex]) @ first_occurrences (F @ filter (\<lambda>n. n \<notin> V) N)"
      by (simp only: first_occurrences_append)
    also have "F @ filter (\<lambda>n. n \<notin> V) N = filter (\<lambda>n. n \<notin> V) (bfs_for V N queue)"
      by (simp add: bfs_for_filter F_def)
    finally have "first_occurrences (s # concat (map (neighbors_of g) (result @ [vertex])))
       = (result @ [vertex]) @ first_occurrences
        (filter (\<lambda>n. n \<notin> insert vertex visited)
           (bfs_for (insert vertex visited) (neighbors_of g vertex) queue))"
      by (simp only: V_def N_def)
    moreover have "insert vertex visited = set (result @ [vertex])" using "2.prems"(2) by simp
    ultimately show ?thesis using "2.IH"(1) [OF False] False by simp
  qed
qed

text \<open>
  Claim C1: for every graph and start, bfs returns a sequence that holds each vertex
  reachable from start exactly once (it is distinct and its members are the reachable
  vertices), in non-decreasing distance from start, and in the order of first arrival
  in the queue: start, then the neighbours of each returned vertex in adjacency order,
  in the order the vertices were returned.
\<close>

theorem bfs_layered:
  "distinct (bfs g start) \<and> set (bfs g start) = reachable g start \<and>
   sorted (map (distance g start) (bfs g start)) \<and>
   bfs g start = first_occurrences (start # concat (map (neighbors_of g) (bfs g start)))"
proof -
  have "distinct (bfs g start) \<and> set (bfs g start) = reachable g start \<and>
   sorted (map (distance g start) (bfs g start))"
    unfolding bfs_def bfs_call_def by (rule bfs_while_layered [OF bfs_inv_init]) simp
  moreover have "first_occurrences (start # concat (map (neighbors_of g) (bfs g start))) = bfs g start"
    unfolding bfs_def bfs_call_def by (rule bfs_while_arrival) simp_all
  ultimately show ?thesis by simp
qed

lemma bfs_diamond: "bfs diamond ''a'' = [''a'', ''b'', ''c'', ''d'', ''e'']"
  by (simp add: bfs_def bfs_call_def diamond_def neighbors_of_def get_def)

theorem bfs_layered_witness:
  "bfs diamond ''a'' = [''a'', ''b'', ''c'', ''d'', ''e''] \<and>
   reachable diamond ''a'' = {''a'', ''b'', ''c'', ''d'', ''e''} \<and>
   sorted (map (distance diamond ''a'') [''a'', ''b'', ''c'', ''d'', ''e''])"
proof -
  note t = bfs_layered [of diamond "''a''"]
  from t have "set (bfs diamond ''a'') = reachable diamond ''a''" by blast
  moreover from t have "sorted (map (distance diamond ''a'') (bfs diamond ''a''))" by blast
  ultimately show ?thesis unfolding bfs_diamond by auto
qed

text \<open>
  The order of first arrival and the members determine the sequence: the vertex at a
  position is the first one in the arrivals from the vertices before it that is not
  among them. So \<open>bfs\<close> is the only sequence with the two properties.
\<close>

lemma filter_first_occurrences:
  "filter P (first_occurrences xs) = first_occurrences (filter P xs)"
proof (induction xs rule: first_occurrences.induct)
  case 1
  show ?case by simp
next
  case (2 x xs)
  show ?case
  proof (cases "P x")
    case True
    have "filter P (filter (\<lambda>y. y \<noteq> x) xs) = filter (\<lambda>y. y \<noteq> x) (filter P xs)"
      by (auto simp: filter_filter intro: filter_cong)
    with 2 True show ?thesis by simp
  next
    case False
    then have "filter P (filter (\<lambda>y. y \<noteq> x) xs) = filter P xs"
      by (auto simp: filter_filter intro: filter_cong)
    with 2 False show ?thesis by simp
  qed
qed

lemma first_occurrences_hd:
  assumes "first_occurrences xs = x # ys"
  shows "\<exists>zs. xs = x # zs"
  using assms by (cases xs) auto

lemma arrival_next:
  assumes fp: "zs = first_occurrences (s # concat (map (neighbors_of g) zs))"
    and reach: "set zs = reachable g s" and n: "n < length zs"
  shows "\<exists>rest. filter (\<lambda>v. v \<notin> set (take n zs)) (s # concat (map (neighbors_of g) (take n zs)))
           = zs ! n # rest"
proof -
  define p where "p = take n zs"
  define Q1 where "Q1 = s # concat (map (neighbors_of g) p)"
  define Q2 where "Q2 = concat (map (neighbors_of g) (drop n zs))"
  have dz: "distinct zs" by (subst fp) (rule distinct_first_occurrences)
  from n have split: "zs = p @ zs ! n # drop (Suc n) zs"
    by (simp add: p_def id_take_nth_drop [symmetric])
  from dz split have fresh: "zs ! n \<notin> set p" and later: "set (drop (Suc n) zs) \<inter> set p = {}"
    by (metis distinct_append disjoint_iff list.set_intros(1) list.set_intros(2) Int_commute)+
  have Q: "s # concat (map (neighbors_of g) zs) = Q1 @ Q2"
    unfolding Q1_def Q2_def p_def
    by (subst (1) append_take_drop_id [of n zs, symmetric]) (simp del: append_take_drop_id)
  have "filter (\<lambda>v. v \<notin> set p) zs = zs ! n # drop (Suc n) zs"
    using fresh later by (subst split) (auto simp: filter_empty_conv filter_id_conv)
  moreover have "filter (\<lambda>v. v \<notin> set p) zs
      = first_occurrences (filter (\<lambda>v. v \<notin> set p) (Q1 @ Q2))"
    by (subst fp) (simp only: filter_first_occurrences Q)
  ultimately obtain rest where
    all: "filter (\<lambda>v. v \<notin> set p) Q1 @ filter (\<lambda>v. v \<notin> set p) Q2 = zs ! n # rest"
    using first_occurrences_hd by (metis filter_append)
  have "filter (\<lambda>v. v \<notin> set p) Q1 \<noteq> []"
  proof
    assume "filter (\<lambda>v. v \<notin> set p) Q1 = []"
    then have sub: "set Q1 \<subseteq> set p" by (auto simp: filter_empty_conv)
    have "reachable g s \<subseteq> set p"
    proof (rule reachable_closed)
      show "s \<in> set p" using sub by (auto simp: Q1_def)
    next
      fix u w assume "u \<in> set p" "w \<in> set (neighbors_of g u)"
      then show "w \<in> set p" using sub by (auto simp: Q1_def)
    qed
    moreover have "zs ! n \<in> reachable g s" using n reach nth_mem by blast
    ultimately show False using fresh by blast
  qed
  with all obtain rest' where "filter (\<lambda>v. v \<notin> set p) Q1 = zs ! n # rest'"
    by (cases "filter (\<lambda>v. v \<notin> set p) Q1") auto
  then show ?thesis unfolding Q1_def p_def by blast
qed

lemma arrival_order_unique:
  assumes "xs = first_occurrences (s # concat (map (neighbors_of g) xs))"
    and "set xs = reachable g s"
    and "ys = first_occurrences (s # concat (map (neighbors_of g) ys))"
    and "set ys = reachable g s"
  shows "xs = ys"
proof -
  have dx: "distinct xs" by (subst assms(1)) (rule distinct_first_occurrences)
  have dy: "distinct ys" by (subst assms(3)) (rule distinct_first_occurrences)
  from dx dy assms(2,4) have len: "length xs = length ys"
    by (metis distinct_card)
  have "take n xs = take n ys" if "n \<le> length xs" for n
    using that
  proof (induction n)
    case 0
    show ?case by simp
  next
    case (Suc n)
    then have eq: "take n xs = take n ys" and n: "n < length xs" "n < length ys"
      using len by simp_all
    from arrival_next [OF assms(1,2) n(1)] arrival_next [OF assms(3,4) n(2)] eq
    have "xs ! n = ys ! n" by auto
    with eq n show ?case by (simp add: take_Suc_conv_app_nth)
  qed
  from this [of "length xs"] len show ?thesis by simp
qed

lemma bfs_unique:
  assumes "xs = first_occurrences (start # concat (map (neighbors_of g) xs))"
    and "set xs = reachable g start"
  shows "xs = bfs g start"
proof (rule arrival_order_unique [OF assms])
  show "bfs g start = first_occurrences (start # concat (map (neighbors_of g) (bfs g start)))"
    unfolding bfs_def bfs_call_def by (rule bfs_while_arrival [symmetric]) simp_all
  show "set (bfs g start) = reachable g start"
    unfolding bfs_def bfs_call_def
    by (rule bfs_while_layered [OF bfs_inv_init, THEN conjunct2, THEN conjunct1]) simp
qed

text \<open>
  Claim C7: when start has no adjacency entry, bfs returns the one-element sequence
  [start]; it fails in no case, being a total function.
\<close>

theorem bfs_missing_start: "get g start = None \<Longrightarrow> bfs g start = [start]"
  by (simp add: bfs_def bfs_call_def neighbors_of_def)

theorem bfs_missing_start_witness:
  "get diamond ''z'' = None \<and> bfs diamond ''z'' = [''z'']"
proof -
  have "get diamond ''z'' = None" by (simp add: get_def diamond_def)
  with bfs_missing_start [of diamond "''z''"] show ?thesis by simp
qed

lemma bfs_while_frame: "fst (bfs_while g visited queue result) = g"
  by (induction g visited queue result rule: bfs_while.induct) auto

subsection \<open>dfs\<close>

lemma dfs_frame:
  "fst (dfsHelper vertex st) = fst st"
  "fst (dfs_for ns st) = fst st"
  by (induction vertex st and ns st rule: dfsHelper_dfs_for.induct) auto

lemma dfs_state_preorder:
  "\<exists>xs. dfsHelper vertex st = (fst st, fst (snd st) \<union> set xs, snd (snd st) @ xs) \<and>
        preorder (fst st) (fst (snd st)) vertex xs"
  "\<exists>xs. dfs_for ns st = (fst st, fst (snd st) \<union> set xs, snd (snd st) @ xs) \<and>
        preorder_each (fst st) (fst (snd st)) ns xs"
proof (induction vertex st and ns st rule: dfsHelper_dfs_for.induct)
  case (1 vertex g visited result)
  then obtain xs where
    "dfs_for (neighbors_of g vertex) (g, insert vertex visited, result @ [vertex])
       = (g, insert vertex visited \<union> set xs, (result @ [vertex]) @ xs)"
    and "preorder_each g (insert vertex visited) (neighbors_of g vertex) xs" by auto
  then have "dfsHelper vertex (g, visited, result)
       = (g, visited \<union> set (vertex # xs), result @ vertex # xs) \<and>
     preorder g visited vertex (vertex # xs)"
    by (simp add: preorder_preorder_each.visit)
  then show ?case unfolding fst_conv snd_conv by (rule exI)
next
  case (2 st)
  have "dfs_for [] st = (fst st, fst (snd st) \<union> set [], snd (snd st) @ []) \<and>
        preorder_each (fst st) (fst (snd st)) [] []"
    by (simp add: preorder_preorder_each.finish)
  then show ?case by (rule exI)
next
  case (3 neighbor rest g visited result)
  show ?case
  proof (cases "neighbor \<in> visited")
    case True
    with "3.IH"(3) obtain xs where
      "dfs_for rest (g, visited, result) = (g, visited \<union> set xs, result @ xs)"
      and "preorder_each g visited rest xs" by auto
    with True have "dfs_for (neighbor # rest) (g, visited, result)
        = (g, visited \<union> set xs, result @ xs) \<and> preorder_each g visited (neighbor # rest) xs"
      by (simp add: preorder_preorder_each.skip)
    then show ?thesis unfolding fst_conv snd_conv by (rule exI)
  next
    case False
    from "3.IH"(1) [OF False] obtain ys where
      h: "dfsHelper neighbor (g, visited, result) = (g, visited \<union> set ys, result @ ys)"
      and py: "preorder g visited neighbor ys" by auto
    from "3.IH"(2) [OF False] h obtain xs where
      r: "dfs_for rest (g, visited \<union> set ys, result @ ys)
          = (g, (visited \<union> set ys) \<union> set xs, (result @ ys) @ xs)"
      and px: "preorder_each g (visited \<union> set ys) rest xs" by auto
    from False h r py px have "dfs_for (neighbor # rest) (g, visited, result)
        = (g, visited \<union> set (ys @ xs), result @ (ys @ xs)) \<and>
        preorder_each g visited (neighbor # rest) (ys @ xs)"
      by (simp add: preorder_preorder_each.descend Un_assoc)
    then show ?thesis unfolding fst_conv snd_conv by (rule exI)
  qed
qed

lemma preorder_head: "preorder g V v xs \<Longrightarrow> \<exists>ys. xs = v # ys"
  by (erule preorderE) simp

lemma preorder_fresh:
  "preorder g V v xs \<Longrightarrow> v \<notin> V \<Longrightarrow> distinct xs \<and> set xs \<inter> V = {}"
  "preorder_each g V ns xs \<Longrightarrow> distinct xs \<and> set xs \<inter> V = {}"
  by (induction rule: preorder_preorder_each.inducts) auto

lemma preorder_reachable:
  "preorder g V v xs \<Longrightarrow> set xs \<subseteq> reachable g v"
  "preorder_each g V ns xs \<Longrightarrow> set xs \<subseteq> (\<Union>n \<in> set ns. reachable g n)"
proof (induction rule: preorder_preorder_each.inducts)
  case (visit g v V xs)
  have "reachable g n \<subseteq> reachable g v" if "n \<in> set (neighbors_of g v)" for n
    using that by (auto simp: reachable_def edge_def intro: converse_rtrancl_into_rtrancl)
  with visit.IH show ?case by (auto simp: reachable_start)
qed auto

lemma preorder_closed:
  "preorder g V v xs \<Longrightarrow> (\<forall>u \<in> set xs. set (neighbors_of g u) \<subseteq> V \<union> set xs)"
  "preorder_each g V ns xs \<Longrightarrow>
     set ns \<subseteq> V \<union> set xs \<and> (\<forall>u \<in> set xs. set (neighbors_of g u) \<subseteq> V \<union> set xs)"
proof (induction rule: preorder_preorder_each.inducts)
  case (descend n V g ys ns xs)
  from descend.hyps(2) have "n \<in> set ys" by (auto dest: preorder_head)
  with descend.IH show ?case by auto
qed auto

lemma preorder_deterministic:
  "preorder g V v xs \<Longrightarrow> preorder g V v xs' \<Longrightarrow> xs = xs'"
  "preorder_each g V ns ys \<Longrightarrow> preorder_each g V ns ys' \<Longrightarrow> ys = ys'"
proof (induction arbitrary: xs' and ys' rule: preorder_preorder_each.inducts)
  case (visit g v V xs)
  from visit.prems show ?case by (rule preorderE) (auto dest: visit.IH)
next
  case (finish g V)
  then show ?case by (auto elim: preorder_each_NilE)
next
  case (skip n V g ns xs)
  from skip.prems show ?case
  proof (rule preorder_each_ConsE)
    assume "n \<in> V" "preorder_each g V ns ys'"
    then show ?thesis by (auto dest: skip.IH)
  next
    fix zs ws assume "ys' = zs @ ws" "n \<notin> V"
    with skip.hyps(1) show ?thesis by simp
  qed
next
  case (descend n V g ys ns xs)
  from descend.prems show ?case
  proof (rule preorder_each_ConsE)
    assume "n \<in> V" with descend.hyps(1) show ?thesis by simp
  next
    fix zs ws
    assume *: "ys' = zs @ ws" "n \<notin> V" "preorder g V n zs" "preorder_each g (V \<union> set zs) ns ws"
    from *(3) have eq: "ys = zs" by (rule descend.IH(1))
    with *(4) have "xs = ws" by (intro descend.IH(2)) simp
    with eq *(1) show ?thesis by simp
  qed
qed

text \<open>
  Claim C2: for every graph and start, dfs returns a sequence that holds each vertex
  reachable from start exactly once, and it is the pre-order sequence: start first,
  then for each neighbour in adjacency order that is not visited by then, the whole
  sequence of its visit.
\<close>

theorem dfs_preorder:
  "distinct (dfs g start) \<and> set (dfs g start) = reachable g start \<and>
   preorder g {} start (dfs g start)"
proof -
  from dfs_state_preorder(1) [of start "(g, {}, [])"]
  have pre: "preorder g {} start (dfs g start)"
    by (auto simp: dfs_def dfs_call_def)
  from preorder_fresh(1) [OF pre] have "distinct (dfs g start)" by simp
  moreover have "set (dfs g start) = reachable g start"
  proof
    show "set (dfs g start) \<subseteq> reachable g start" using pre by (rule preorder_reachable(1))
    show "reachable g start \<subseteq> set (dfs g start)"
    proof (rule reachable_closed)
      show "start \<in> set (dfs g start)" using preorder_head [OF pre] by auto
    next
      fix u w assume "u \<in> set (dfs g start)" "w \<in> set (neighbors_of g u)"
      with preorder_closed(1) [OF pre] show "w \<in> set (dfs g start)" by auto
    qed
  qed
  ultimately show ?thesis using pre by simp
qed

lemma dfs_diamond: "dfs diamond ''a'' = [''a'', ''b'', ''d'', ''c'', ''e'']"
  by (simp add: dfs_def dfs_call_def diamond_def neighbors_of_def get_def)

theorem dfs_preorder_witness:
  "dfs diamond ''a'' = [''a'', ''b'', ''d'', ''c'', ''e''] \<and>
   reachable diamond ''a'' = {''a'', ''b'', ''c'', ''d'', ''e''} \<and>
   preorder diamond {} ''a'' [''a'', ''b'', ''d'', ''c'', ''e'']"
  using dfs_preorder [of diamond "''a''"] by (auto simp add: dfs_diamond)

text \<open>
  Claim C9: dfs on a start without adjacency entry returns [start]; in every case the
  sequence dfs returns is not empty and begins with start.
\<close>

theorem dfs_begins_with_start:
  "(get g start = None \<longrightarrow> dfs g start = [start]) \<and> dfs g start \<noteq> [] \<and> hd (dfs g start) = start"
proof -
  from dfs_state_preorder(1) [of start "(g, {}, [])"]
  have "preorder g {} start (dfs g start)" by (auto simp: dfs_def dfs_call_def)
  then obtain ys where "dfs g start = start # ys" by (auto dest: preorder_head)
  moreover have "get g start = None \<longrightarrow> dfs g start = [start]"
    by (simp add: dfs_def dfs_call_def neighbors_of_def)
  ultimately show ?thesis by simp
qed

theorem dfs_begins_with_start_witness:
  "get diamond ''z'' = None \<and> dfs diamond ''z'' = [''z''] \<and> hd (dfs diamond ''a'') = ''a''"
proof -
  have "get diamond ''z'' = None" by (simp add: get_def diamond_def)
  with dfs_begins_with_start [of diamond "''z''"] dfs_begins_with_start [of diamond "''a''"]
  show ?thesis by simp
qed

subsection \<open>The traversals leave the graph as it is\<close>

text \<open>
  Claim C10: neither traversal changes the graph: the graph after a call of bfs or of
  dfs is the graph before it.
\<close>

theorem traversals_frame:
  "fst (bfs_call g start) = g \<and> fst (dfs_call g start) = g"
proof -
  obtain g' visited result where r: "dfsHelper start (g, {}, []) = (g', visited, result)"
    by (cases "dfsHelper start (g, {}, [])")
  from dfs_frame(1) [of start "(g, {}, [])"] r have "g' = g" by simp
  with r show ?thesis
    by (simp add: bfs_call_def bfs_while_frame dfs_call_def)
qed

subsection \<open>addVertex and addEdge\<close>

lemma has_addVertex: "has (addVertex v g) w = (w = v \<or> has g w)"
  by (auto simp: addVertex_def has_def update_conv')

text \<open>
  Claim C6: addVertex is idempotent: a second call with the same identifier changes
  nothing, so the graph after two calls is the graph after one.
\<close>

theorem addVertex_idempotent: "addVertex v (addVertex v g) = addVertex v g"
  by (simp add: addVertex_def has_def update_conv')

lemma get_addVertex:
  "get (addVertex v g) x = (if x = v \<and> get g v = None then Some [] else get g x)"
  by (auto simp: addVertex_def has_def get_def update_conv')

lemma get_push_neighbor:
  assumes "get g v = Some ns"
  shows "\<exists>g'. push_neighbor v w g = Inr g' \<and> get g' = (get g)(v \<mapsto> ns @ [w]) \<and>
        map fst (adjacencyList g') = map fst (adjacencyList g)"
proof -
  from assms have "(v, ns) \<in> set (adjacencyList g)" by (simp add: get_def map_of_SomeD)
  then have "v \<in> fst ` set (adjacencyList g)" by (rule rev_image_eqI) simp
  with assms show ?thesis
    by (auto simp: push_neighbor_def get_def update_conv' update_keys fun_eq_iff)
qed

text \<open>
  Claim C5: addEdge a b directed succeeds; afterwards a and b have entries (new keys
  come last, a before b), b is appended to the neighbours of a, and a is appended to
  the neighbours of b exactly when directed is false; no other entry changes. So
  after an undirected call each is a neighbour of the other, and after a directed call
  with two different vertices the neighbours of b are what they were.
\<close>

theorem addEdge_effect:
  "\<exists>g'. addEdge a b directed g = Inr g' \<and> has g' a \<and> has g' b \<and>
     map fst (adjacencyList g') = map fst (adjacencyList (addVertex b (addVertex a g))) \<and>
     (\<forall>x. get g' x =
        (if x = a \<and> x = b then Some (neighbors_of g a @ (if directed then [a] else [a, a]))
         else if x = a then Some (neighbors_of g a @ [b])
         else if x = b then Some (neighbors_of g b @ (if directed then [] else [a]))
         else get g x)) \<and>
     b \<in> set (neighbors_of g' a) \<and>
     (\<not> directed \<longrightarrow> a \<in> set (neighbors_of g' b)) \<and>
     (directed \<and> a \<noteq> b \<longrightarrow> neighbors_of g' b = neighbors_of g b)"
proof -
  define g2 where "g2 = addVertex b (addVertex a g)"
  have get2: "get g2 x = (if x = a \<or> x = b then Some (neighbors_of g x) else get g x)" for x
    by (auto simp: g2_def get_addVertex neighbors_of_def split: option.splits)
  from get2 [of a] obtain g3 where p3: "push_neighbor a b g2 = Inr g3"
    and get3: "get g3 = (get g2)(a \<mapsto> neighbors_of g a @ [b])"
    and keys3: "map fst (adjacencyList g3) = map fst (adjacencyList g2)"
    using get_push_neighbor [of g2 a "neighbors_of g a" b] by auto
  show ?thesis
  proof (cases directed)
    case True
    with p3 have "addEdge a b directed g = Inr g3" by (simp add: addEdge_def g2_def)
    with True get2 get3 keys3 show ?thesis
      by (auto simp: has_def get_def [symmetric] neighbors_of_def g2_def)
  next
    case False
    have "get g3 b = Some (if a = b then neighbors_of g a @ [b] else neighbors_of g b)"
      by (simp add: get3 get2)
    then obtain g4 where p4: "push_neighbor b a g3 = Inr g4"
      and get4: "get g4 = (get g3)(b \<mapsto> (if a = b then neighbors_of g a @ [b] else neighbors_of g b) @ [a])"
      and keys4: "map fst (adjacencyList g4) = map fst (adjacencyList g3)"
      using get_push_neighbor [of g3 b _ a] by blast
    from p3 p4 False have "addEdge a b directed g = Inr g4" by (simp add: addEdge_def g2_def)
    with False get2 get3 get4 keys3 keys4 show ?thesis
      by (auto simp: has_def get_def [symmetric] neighbors_of_def g2_def)
  qed
qed

theorem addEdge_effect_witness:
  "(\<exists>g'. addEdge ''a'' ''b'' False constructor = Inr g' \<and>
      neighbors_of g' ''a'' = [''b''] \<and> neighbors_of g' ''b'' = [''a'']) \<and>
   (\<exists>g'. addEdge ''a'' ''b'' True diamond = Inr g' \<and>
      neighbors_of g' ''a'' = [''b'', ''c'', ''b''] \<and> neighbors_of g' ''b'' = [''a'', ''d''])"
proof -
  have "neighbors_of constructor x = []" for x :: string
    by (simp add: neighbors_of_def get_def constructor_def)
  moreover have "neighbors_of diamond ''a'' = [''b'', ''c'']"
    "neighbors_of diamond ''b'' = [''a'', ''d'']"
    by (simp_all add: neighbors_of_def get_def diamond_def)
  ultimately show ?thesis
    using addEdge_effect [of "''a''" "''b''" False constructor]
      addEdge_effect [of "''a''" "''b''" True diamond]
    by (auto simp: neighbors_of_def)
qed

text \<open>The keys of the map stay distinct.\<close>

lemma wf_constructor: "wf_graph constructor"
  by (simp add: wf_graph_def constructor_def)

lemma wf_addVertex: "wf_graph g \<Longrightarrow> wf_graph (addVertex v g)"
  by (simp add: wf_graph_def addVertex_def distinct_update)

lemma wf_push_neighbor: "wf_graph g \<Longrightarrow> push_neighbor v w g = Inr g' \<Longrightarrow> wf_graph g'"
  by (auto simp: push_neighbor_def wf_graph_def distinct_update split: option.splits)

lemma wf_addEdge:
  assumes "wf_graph g" and "addEdge a b directed g = Inr g'"
  shows "wf_graph g'"
proof -
  from assms(2) obtain g3 where
    p: "push_neighbor a b (addVertex b (addVertex a g)) = Inr g3"
    and q: "(if \<not> directed then push_neighbor b a g3 else Inr g3) = Inr g'"
    by (auto simp: addEdge_def split: sum.splits)
  from assms(1) have "wf_graph (addVertex b (addVertex a g))"
    by (intro wf_addVertex)
  from this p have "wf_graph g3" by (rule wf_push_neighbor)
  with q show ?thesis by (auto split: if_splits intro: wf_push_neighbor)
qed

subsection \<open>getAdjacencyList\<close>

lemma join_listing: "join numberToString (code_units '', '') ns = listing numberToString ns"
proof (cases ns)
  case Nil
  then show ?thesis by simp
next
  case (Cons n rest)
  have "join numberToString sep (n # rest) =
      toString numberToString n @ concat (map (\<lambda>m. sep @ toString numberToString m) rest)" for sep
    by (induction rest arbitrary: n) auto
  with Cons show ?thesis by simp
qed

lemma getAdjacencyList_for_lines:
  "getAdjacencyList_for numberToString entries (g, representation)
   = (g, representation @ concat (map (line numberToString) entries))"
  by (induction entries arbitrary: representation) (auto simp: line_def join_listing)

text \<open>
  Claim C8: getAdjacencyList leaves the graph as it is and returns one line for each
  entry of the adjacency mapping, in the mapping's order, each the vertex, a colon and
  the neighbours in their order between brackets, separated by comma and space; this
  for all identifiers that are strings or numbers, whatever string each number has.
\<close>

theorem getAdjacencyList_lines:
  "fst (getAdjacencyList_call numberToString g) = g \<and>
   getAdjacencyList numberToString g = concat (map (line numberToString) (adjacencyList g))"
  by (simp add: getAdjacencyList_def getAdjacencyList_call_def getAdjacencyList_for_lines)

lemma getAdjacencyList_numbered:
  "getAdjacencyList decimal numbered =
     code_units ''9: [10]'' @ [10] @ code_units ''10: [9, 1]'' @ [10] @
     code_units ''1: [10]'' @ [10] @ code_units ''b: [1]'' @ [10]"
  by (simp add: getAdjacencyList_def getAdjacencyList_call_def numbered_def decimal_def
      digits.simps digit_def code_units_def)

theorem getAdjacencyList_lines_witness:
  "getAdjacencyList decimal numbered =
     code_units ''9: [10]'' @ [10] @ code_units ''10: [9, 1]'' @ [10] @
     code_units ''1: [10]'' @ [10] @ code_units ''b: [1]'' @ [10] \<and>
   concat (map (line decimal) (adjacencyList numbered)) = getAdjacencyList decimal numbered"
  using getAdjacencyList_lines [of decimal numbered] getAdjacencyList_numbered by simp

text \<open>A number that JavaScript prints in exponent notation, \<open>10\<^sup>2\<^sup>1\<close>, with the string it
  has there.\<close>

lemma getAdjacencyList_exponent:
  assumes "numberToString (10 ^ 21) = code_units ''1e+21''"
    and "numberToString 11 = code_units ''11''"
  shows "getAdjacencyList numberToString
           \<lparr>adjacencyList = [(Num (10 ^ 21 :: int), [Num 11]), (Num 11, [])]\<rparr>
         = code_units ''1e+21: [11]'' @ [10] @ code_units ''11: []'' @ [10]"
  using assms by (simp add: getAdjacencyList_def getAdjacencyList_call_def code_units_def)

subsection \<open>getAdjacencyMatrix\<close>

lemma shape_update:
  assumes "shape n matrix" and "i < n" and "j < n"
  shows "shape n (matrix[i := (matrix ! i)[j := v]])"
  using assms unfolding shape_def by (auto dest!: set_update_subset_insert [THEN subsetD])

lemma nth_update_cell:
  assumes "shape n matrix" and "i < n" and "j < n" and "i' < n" and "j' < n"
  shows "matrix[i := (matrix ! i)[j := v]] ! i' ! j'
         = (if i' = i \<and> j' = j then v else matrix ! i' ! j')"
  using assms unfolding shape_def by (auto simp: nth_list_update)

lemma matrix_for_j_result:
  assumes "get g (vertices ! i) = Some ns" and "shape n matrix" and "n = length vertices"
    and "i < n"
  shows "\<exists>m'. matrix_for_j g vertices i j matrix = Inr m' \<and> shape n m' \<and>
     (\<forall>i' j'. i' < n \<longrightarrow> j' < n \<longrightarrow>
        m' ! i' ! j' = (if i' = i \<and> j \<le> j' \<and> vertices ! j' \<in> set ns then 1
                        else matrix ! i' ! j'))"
  using assms
proof (induction g vertices i j matrix rule: matrix_for_j.induct)
  case (1 g vertices i j matrix)
  show ?case
  proof (cases "j < length vertices")
    case False
    with "1.prems" show ?thesis
      by (subst matrix_for_j.simps) auto
  next
    case True
    define matrix1 where "matrix1 =
      (if vertices ! j \<in> set ns then matrix[i := (matrix ! i)[j := 1]] else matrix)"
    from True "1.prems" have sh: "shape n matrix1"
      by (simp add: matrix1_def shape_update)
    have cell: "matrix1 ! i' ! j' =
        (if i' = i \<and> j' = j \<and> vertices ! j \<in> set ns then 1 else matrix ! i' ! j')"
      if "i' < n" "j' < n" for i' j'
      using that True "1.prems" by (simp add: matrix1_def nth_update_cell)
    from "1.IH" [OF True "1.prems"(1) "1.prems"(1) sh [unfolded matrix1_def] "1.prems"(3,4)]
    obtain m' where r: "matrix_for_j g vertices i (j + 1) matrix1 = Inr m'"
      and sh': "shape n m'"
      and c': "\<forall>i' j'. i' < n \<longrightarrow> j' < n \<longrightarrow>
        m' ! i' ! j' = (if i' = i \<and> j + 1 \<le> j' \<and> vertices ! j' \<in> set ns then 1
                        else matrix1 ! i' ! j')"
      unfolding matrix1_def by blast
    have "matrix_for_j g vertices i j matrix = Inr m'"
      using True "1.prems"(1) r by (subst matrix_for_j.simps) (simp add: matrix1_def)
    moreover have "m' ! i' ! j' = (if i' = i \<and> j \<le> j' \<and> vertices ! j' \<in> set ns then 1
                        else matrix ! i' ! j')" if "i' < n" "j' < n" for i' j'
      using c' that cell [OF that] by (cases "j' = j") auto
    ultimately show ?thesis using sh' by blast
  qed
qed


lemma get_key: "v \<in> fst ` set (adjacencyList g) \<Longrightarrow> \<exists>ns. get g v = Some ns"
  by (cases "get g v") (auto simp: get_def map_of_eq_None_iff)

lemma matrix_for_i_result:
  assumes "set vertices \<subseteq> fst ` set (adjacencyList g)" and "shape n matrix"
    and "n = length vertices"
  shows "\<exists>m'. matrix_for_i g vertices i matrix = Inr m' \<and> shape n m' \<and>
     (\<forall>i' j'. i' < n \<longrightarrow> j' < n \<longrightarrow>
        m' ! i' ! j' = (if i \<le> i' \<and> vertices ! j' \<in> set (neighbors_of g (vertices ! i')) then 1
                        else matrix ! i' ! j'))"
  using assms
proof (induction g vertices i matrix rule: matrix_for_i.induct)
  case (1 g vertices i matrix)
  show ?case
  proof (cases "i < length vertices")
    case False
    with "1.prems" show ?thesis
      by (subst matrix_for_i.simps) auto
  next
    case True
    with "1.prems"(1) have "vertices ! i \<in> fst ` set (adjacencyList g)"
      by (auto simp: subset_iff)
    then have "\<exists>ns. get g (vertices ! i) = Some ns" by (rule get_key)
    then obtain ns where ns: "get g (vertices ! i) = Some ns" ..
    from True "1.prems" have "i < n" by simp
    from matrix_for_j_result [OF ns "1.prems"(2,3) this, of 0]
    obtain m1 where r1: "matrix_for_j g vertices i 0 matrix = Inr m1" and sh1: "shape n m1"
      and c1: "\<forall>i' j'. i' < n \<longrightarrow> j' < n \<longrightarrow>
        m1 ! i' ! j' = (if i' = i \<and> vertices ! j' \<in> set ns then 1 else matrix ! i' ! j')"
      by auto
    from "1.IH" [OF True r1 "1.prems"(1) sh1 "1.prems"(3)]
    obtain m' where r: "matrix_for_i g vertices (i + 1) m1 = Inr m'" and sh': "shape n m'"
      and c': "\<forall>i' j'. i' < n \<longrightarrow> j' < n \<longrightarrow>
        m' ! i' ! j' = (if i + 1 \<le> i' \<and> vertices ! j' \<in> set (neighbors_of g (vertices ! i')) then 1
                        else m1 ! i' ! j')"
      by blast
    have "matrix_for_i g vertices i matrix = Inr m'"
      using True r1 r by (subst matrix_for_i.simps) simp
    moreover have "m' ! i' ! j' =
        (if i \<le> i' \<and> vertices ! j' \<in> set (neighbors_of g (vertices ! i')) then 1
         else matrix ! i' ! j')" if "i' < n" "j' < n" for i' j'
      using c' c1 that ns by (cases "i' = i") (auto simp: neighbors_of_def)
    ultimately show ?thesis using sh' by blast
  qed
qed

lemma getAdjacencyMatrix_result:
  "\<exists>matrix. getAdjacencyMatrix numberToString g = Inr (matrix, sort_default numberToString (map fst (adjacencyList g))) \<and>
     shape (length (adjacencyList g)) matrix \<and>
     (\<forall>i j. i < length (adjacencyList g) \<longrightarrow> j < length (adjacencyList g) \<longrightarrow>
        matrix ! i ! j =
          (if sort_default numberToString (map fst (adjacencyList g)) ! j
                \<in> set (neighbors_of g (sort_default numberToString (map fst (adjacencyList g)) ! i))
           then 1 else 0))"
proof -
  define vertices where "vertices = sort_default numberToString (map fst (adjacencyList g))"
  define n where "n = length (adjacencyList g)"
  have len: "n = length vertices" by (simp add: vertices_def n_def sort_default_def)
  have keys: "set vertices \<subseteq> fst ` set (adjacencyList g)"
    by (simp add: vertices_def sort_default_def)
  have sh: "shape n (replicate n (replicate n 0))" by (simp add: shape_def)
  from matrix_for_i_result [OF keys sh len, of 0]
  obtain m' where r: "matrix_for_i g vertices 0 (replicate n (replicate n 0)) = Inr m'"
    and sh': "shape n m'"
    and c': "\<forall>i' j'. i' < n \<longrightarrow> j' < n \<longrightarrow>
        m' ! i' ! j' = (if vertices ! j' \<in> set (neighbors_of g (vertices ! i')) then 1
                        else replicate n (replicate n 0) ! i' ! j')"
    by auto
  from r len have "getAdjacencyMatrix numberToString g = Inr (m', vertices)"
    by (simp add: getAdjacencyMatrix_def vertices_def [symmetric])
  moreover from c' have "\<forall>i j. i < n \<longrightarrow> j < n \<longrightarrow>
        m' ! i ! j = (if vertices ! j \<in> set (neighbors_of g (vertices ! i)) then 1 else 0)"
    by simp
  ultimately show ?thesis using sh' unfolding vertices_def n_def by blast
qed

lemma sorted_strings:
  assumes "sorted (map (toString numberToString) vertices)"
    and "\<forall>v \<in> set vertices. \<exists>s. v = Str s"
  shows "sorted_wrt ident_le vertices"
proof -
  from assms(1)
  have "sorted_wrt (\<lambda>a b. toString numberToString a \<le> toString numberToString b) vertices"
    by (simp add: sorted_map)
  then show ?thesis
  proof (rule sorted_wrt_mono_rel [rotated])
    fix a b assume ab: "a \<in> set vertices" "b \<in> set vertices"
      and le: "toString numberToString a \<le> toString numberToString b"
    from assms(2) ab obtain s t where "a = Str s" "b = Str t" by blast
    with le show "ident_le a b" by simp
  qed
qed

text \<open>
  Claim C3, as amended: getAdjacencyMatrix succeeds and returns all vertex identifiers
  (each key of the mapping once) in ascending order of their strings, which is the
  default comparison of \<^verbatim>\<open>Array.prototype.sort\<close> (\<^verbatim>\<open>ToString\<close>, compared code unit by code
  unit), so that identifiers that are all strings are in ascending order as
  identifiers; and a square matrix of the size of the vertex count whose cell [i][j]
  is 1 if vertex j is in the neighbour sequence of vertex i and 0 otherwise.
\<close>

theorem getAdjacencyMatrix_sorted:
  "\<exists>matrix vertices. getAdjacencyMatrix numberToString g = Inr (matrix, vertices) \<and>
     mset vertices = mset (map fst (adjacencyList g)) \<and>
     sorted (map (toString numberToString) vertices) \<and>
     ((\<forall>v \<in> set vertices. \<exists>s. v = Str s) \<longrightarrow> sorted_wrt ident_le vertices) \<and>
     (wf_graph g \<longrightarrow> distinct vertices) \<and>
     length matrix = length (adjacencyList g) \<and>
     (\<forall>row \<in> set matrix. length row = length (adjacencyList g)) \<and>
     (\<forall>i < length vertices. \<forall>j < length vertices.
        matrix ! i ! j = (if vertices ! j \<in> set (neighbors_of g (vertices ! i)) then 1 else 0))"
proof -
  define vertices where "vertices = sort_default numberToString (map fst (adjacencyList g))"
  from getAdjacencyMatrix_result [of numberToString g] obtain matrix where
    r: "getAdjacencyMatrix numberToString g = Inr (matrix, vertices)"
    and sh: "shape (length (adjacencyList g)) matrix"
    and c: "\<forall>i j. i < length (adjacencyList g) \<longrightarrow> j < length (adjacencyList g) \<longrightarrow>
        matrix ! i ! j = (if vertices ! j \<in> set (neighbors_of g (vertices ! i)) then 1 else 0)"
    unfolding vertices_def by blast
  have m: "mset vertices = mset (map fst (adjacencyList g))"
    by (simp add: vertices_def sort_default_def)
  have s: "sorted (map (toString numberToString) vertices)"
    by (simp add: vertices_def sort_default_def)
  from s have o: "(\<forall>v \<in> set vertices. \<exists>s. v = Str s) \<longrightarrow> sorted_wrt ident_le vertices"
    by (blast intro: sorted_strings)
  have d: "wf_graph g \<longrightarrow> distinct vertices"
    by (simp add: vertices_def sort_default_def wf_graph_def)
  have l: "length vertices = length (adjacencyList g)"
    by (simp add: vertices_def sort_default_def)
  from sh l have dims: "length matrix = length (adjacencyList g) \<and>
      (\<forall>row \<in> set matrix. length row = length (adjacencyList g))"
    by (simp add: shape_def)
  from c l have cells: "\<forall>i < length vertices. \<forall>j < length vertices.
        matrix ! i ! j = (if vertices ! j \<in> set (neighbors_of g (vertices ! i)) then 1 else 0)"
    by simp
  from r m s o d dims cells show ?thesis by blast
qed

lemma getAdjacencyMatrix_numbered:
  "getAdjacencyMatrix decimal numbered =
     Inr ([[0, 1, 0, 0], [1, 0, 1, 0], [0, 1, 0, 0], [1, 0, 0, 0]],
          [Num 1, Num 10, Num 9, Str (code_units ''b'')])"
  by (simp add: getAdjacencyMatrix_def numbered_def sort_default_def decimal_def digits.simps
      digit_def code_units_def matrix_for_i.simps matrix_for_j.simps get_def)

lemma wf_numbered: "wf_graph numbered"
  by (simp add: wf_graph_def numbered_def code_units_def)

lemma getAdjacencyMatrix_lettered:
  "getAdjacencyMatrix decimal lettered =
     Inr ([[0, 1], [1, 0]], [Str (code_units ''a''), Str (code_units ''b'')])"
  by (simp add: getAdjacencyMatrix_def lettered_def sort_default_def
      code_units_def matrix_for_i.simps matrix_for_j.simps get_def)

theorem getAdjacencyMatrix_sorted_witness:
  "(getAdjacencyMatrix decimal numbered =
      Inr ([[0, 1, 0, 0], [1, 0, 1, 0], [0, 1, 0, 0], [1, 0, 0, 0]],
           [Num 1, Num 10, Num 9, Str (code_units ''b'')]) \<and>
    wf_graph numbered \<and>
    sorted (map (toString decimal)
      ([Num 1, Num 10, Num 9, Str (code_units ''b'')] :: 53 word ident list)) \<and>
    distinct ([Num 1, Num 10, Num 9, Str (code_units ''b'')] :: 53 word ident list)) \<and>
   (getAdjacencyMatrix decimal lettered =
      Inr ([[0, 1], [1, 0]], [Str (code_units ''a''), Str (code_units ''b'')]) \<and>
    sorted_wrt ident_le
      ([Str (code_units ''a''), Str (code_units ''b'')] :: 53 word ident list))"
proof -
  from getAdjacencyMatrix_sorted [of decimal numbered] wf_numbered
  have "sorted (map (toString decimal)
          ([Num 1, Num 10, Num 9, Str (code_units ''b'')] :: 53 word ident list)) \<and>
        distinct ([Num 1, Num 10, Num 9, Str (code_units ''b'')] :: 53 word ident list)"
    unfolding getAdjacencyMatrix_numbered by blast
  moreover from getAdjacencyMatrix_sorted [of decimal lettered]
  have "sorted_wrt ident_le
      ([Str (code_units ''a''), Str (code_units ''b'')] :: 53 word ident list)"
    unfolding getAdjacencyMatrix_lettered by auto
  ultimately show ?thesis
    using getAdjacencyMatrix_numbered wf_numbered getAdjacencyMatrix_lettered by blast
qed

text \<open>
  As it is stated, with the identifiers compared as values, claim C3 fails on numbers:
  their strings are in ascending order, not the numbers. After \<^verbatim>\<open>addEdge(9, 10)\<close> the
  vertices come back as 10, 9.
\<close>

lemma getAdjacencyMatrix_nine_ten:
  "getAdjacencyMatrix decimal nine_ten = Inr ([[0, 1], [1, 0]], [Num 10, Num 9])"
  by (simp add: getAdjacencyMatrix_def nine_ten_def sort_default_def decimal_def digits.simps
      digit_def matrix_for_i.simps matrix_for_j.simps get_def)

theorem getAdjacencyMatrix_sorted_counterexample:
  "addEdge (Num 9) (Num 10) False constructor = Inr nine_ten \<and>
   getAdjacencyMatrix decimal nine_ten = Inr ([[0, 1], [1, 0]], [Num 10, Num 9]) \<and>
   \<not> sorted_wrt ident_le ([Num 10, Num 9] :: 53 word ident list)"
proof -
  have "addEdge (Num 9) (Num 10) False constructor = Inr nine_ten"
    by (simp add: addEdge_def addVertex_def push_neighbor_def has_def get_def
        constructor_def nine_ten_def)
  moreover have "\<not> sorted_wrt ident_le ([Num 10, Num 9] :: 53 word ident list)"
    by simp
  ultimately show ?thesis using getAdjacencyMatrix_nine_ten by simp
qed

text \<open>The graph of \<open>getAdjacencyList_exponent\<close>: the string of 11 comes first.\<close>

lemma getAdjacencyMatrix_exponent:
  assumes "numberToString (10 ^ 21) = code_units ''1e+21''"
    and "numberToString 11 = code_units ''11''"
  shows "getAdjacencyMatrix numberToString
           \<lparr>adjacencyList = [(Num (10 ^ 21 :: int), [Num 11]), (Num 11, [])]\<rparr>
         = Inr ([[0, 0], [1, 0]], [Num 11, Num (10 ^ 21)])"
  using assms
  by (simp add: getAdjacencyMatrix_def sort_default_def code_units_def
      matrix_for_i.simps matrix_for_j.simps get_def)

text \<open>
  Claim C4: for indices i and j into the vertex sequence that getAdjacencyMatrix
  returns, matrix[i][j] is 1 if and only if vertices[j] is in the adjacency sequence
  of vertices[i].
\<close>

theorem matrix_list_consistency:
  assumes "getAdjacencyMatrix numberToString g = Inr (matrix, vertices)"
    and "i < length vertices" and "j < length vertices"
  shows "(matrix ! i ! j = 1) = (\<exists>ns. get g (vertices ! i) = Some ns \<and> vertices ! j \<in> set ns)"
proof -
  from getAdjacencyMatrix_result [of numberToString g] assms(1)
  have v: "vertices = sort_default numberToString (map fst (adjacencyList g))"
    and c: "\<forall>i j. i < length (adjacencyList g) \<longrightarrow> j < length (adjacencyList g) \<longrightarrow>
        matrix ! i ! j = (if vertices ! j \<in> set (neighbors_of g (vertices ! i)) then 1 else 0)"
    by auto
  from v have l: "length vertices = length (adjacencyList g)"
    by (simp add: sort_default_def)
  from v assms(2) have "vertices ! i \<in> fst ` set (adjacencyList g)"
    using nth_mem [of i vertices] by (simp add: sort_default_def)
  then have "\<exists>ns. get g (vertices ! i) = Some ns" by (rule get_key)
  then obtain ns where "get g (vertices ! i) = Some ns" ..
  with c l assms(2,3) show ?thesis by (simp add: neighbors_of_def)
qed

theorem matrix_list_consistency_witness:
  "getAdjacencyMatrix decimal numbered =
     Inr ([[0, 1, 0, 0], [1, 0, 1, 0], [0, 1, 0, 0], [1, 0, 0, 0]],
          [Num 1, Num 10, Num 9, Str (code_units ''b'')]) \<and>
   (1 :: nat) < length ([Num 1, Num 10, Num 9, Str (code_units ''b'')] :: 53 word ident list) \<and>
   (2 :: nat) < length ([Num 1, Num 10, Num 9, Str (code_units ''b'')] :: 53 word ident list) \<and>
   (\<exists>ns. get numbered (Num 10) = Some ns \<and> Num 9 \<in> set ns)"
  using matrix_list_consistency [OF getAdjacencyMatrix_numbered, of 1 2]
    getAdjacencyMatrix_numbered
  by simp

subsection \<open>The examples of the specification\<close>

text \<open>The path graph built by three undirected edges and one vertex, and the
  traversals the specification lists for it.\<close>

lemma path_graph_built:
  "addEdge ''a'' ''b'' False constructor
     = Inr \<lparr>adjacencyList = [(''a'', [''b'']), (''b'', [''a''])]\<rparr>"
  "addEdge ''b'' ''c'' False \<lparr>adjacencyList = [(''a'', [''b'']), (''b'', [''a''])]\<rparr>
     = Inr \<lparr>adjacencyList = [(''a'', [''b'']), (''b'', [''a'', ''c'']), (''c'', [''b''])]\<rparr>"
  "addEdge ''c'' ''d'' False
       \<lparr>adjacencyList = [(''a'', [''b'']), (''b'', [''a'', ''c'']), (''c'', [''b''])]\<rparr>
     = Inr \<lparr>adjacencyList =
         [(''a'', [''b'']), (''b'', [''a'', ''c'']), (''c'', [''b'', ''d'']), (''d'', [''c''])]\<rparr>"
  "addVertex ''e'' \<lparr>adjacencyList =
         [(''a'', [''b'']), (''b'', [''a'', ''c'']), (''c'', [''b'', ''d'']), (''d'', [''c''])]\<rparr>
     = path_graph"
  by (simp_all add: addEdge_def addVertex_def push_neighbor_def has_def get_def
      constructor_def path_graph_def)

lemma path_graph_traversals:
  "bfs path_graph ''a'' = [''a'', ''b'', ''c'', ''d'']"
  "dfs path_graph ''a'' = [''a'', ''b'', ''c'', ''d'']"
  "bfs path_graph ''e'' = [''e'']"
  by (simp_all add: bfs_def bfs_call_def dfs_def dfs_call_def path_graph_def
      neighbors_of_def get_def)

end
